theory Spec2Isabelle
  imports Complex_Main "HOL-Library.AList" "HOL-Library.FSet" "HOL-Library.Multiset"
begin

section \<open>The streaming analytics pipeline of \<^verbatim>\<open>pipeline.py\<close>\<close>

text \<open>
  The aggregation core of \<^verbatim>\<open>pipeline.py\<close>: the per-track accumulator \<^verbatim>\<open>TrackStats\<close>
  and the engine \<^verbatim>\<open>StreamProcessor\<close>. Conventions of the embedding:
  \<^item> Python's unbounded \<^verbatim>\<open>int\<close> is \<open>int\<close>.
  \<^item> A Python \<^verbatim>\<open>float\<close> is the exact rational it stands for (\<open>rat\<close>): \<^verbatim>\<open>a / b\<close> on two
    ints is the exact quotient and \<^verbatim>\<open>round(x, d)\<close> rounds the exact value, half to even.
    The rounding error of binary floating point is outside the model.
  \<^item> A \<^verbatim>\<open>dict\<close> is an association list in insertion order with distinct keys:
    \<open>map_of\<close> reads a key, \<open>AList.update\<close> stores one (in place when the key is
    present, at the end when it is new), which is the iteration order Python keeps.
  \<^item> A \<^verbatim>\<open>set\<close> of strings is a finite set (\<open>string fset\<close>).
  \<^item> An exception is a value \<open>Inl e\<close> of the result type \<open>error + 'a\<close>.
  \<^item> \<^verbatim>\<open>time.time()\<close> is an input: \<open>process\<close> takes the clock reading of its call.
\<close>

subsection \<open>Catalog\<close>

record track =
  cat_track_id :: string
  cat_title :: string
  album :: string
  duration_s :: int
  release_year :: int

definition CATALOG :: "track list" where
  "CATALOG =
    [\<lparr>cat_track_id = ''jw-001'', cat_title = ''In My Room'', album = ''In My Room (Single)'',
      duration_s = 183, release_year = 2024\<rparr>,
     \<lparr>cat_track_id = ''jw-002'', cat_title = ''Last Summer'', album = ''Last Summer (Single)'',
      duration_s = 172, release_year = 2024\<rparr>,
     \<lparr>cat_track_id = ''jw-003'', cat_title = ''Kill You Off'', album = ''PRESSURE'',
      duration_s = 148, release_year = 2025\<rparr>,
     \<lparr>cat_track_id = ''jw-004'', cat_title = ''Pearl'', album = ''PRESSURE'',
      duration_s = 141, release_year = 2025\<rparr>,
     \<lparr>cat_track_id = ''jw-005'', cat_title = ''Loser'', album = ''PRESSURE'',
      duration_s = 167, release_year = 2025\<rparr>,
     \<lparr>cat_track_id = ''jw-006'', cat_title = ''Fingernails'', album = ''PRESSURE'',
      duration_s = 144, release_year = 2025\<rparr>,
     \<lparr>cat_track_id = ''jw-007'', cat_title = ''Limewire'', album = ''PRESSURE'',
      duration_s = 158, release_year = 2025\<rparr>,
     \<lparr>cat_track_id = ''jw-008'', cat_title = ''Jennifer's Body'', album = ''PRESSURE'',
      duration_s = 153, release_year = 2025\<rparr>,
     \<lparr>cat_track_id = ''jw-009'', cat_title = ''Sunshine State'', album = ''PRESSURE'',
      duration_s = 176, release_year = 2025\<rparr>,
     \<lparr>cat_track_id = ''jw-010'', cat_title = ''You've Lost A Lot of Blood'', album = ''PRESSURE'',
      duration_s = 182, release_year = 2025\<rparr>]"

subsection \<open>Data models\<close>

record StreamEvent =
  event_id :: string
  track_id :: string
  user_id :: string
  platform :: string
  region :: string
  device :: string
  timestamp :: rat
  listened_s :: int
  completed :: bool

text \<open>
  The fields of \<^verbatim>\<open>TrackStats\<close>; the private ones lose their leading underscore, and
  \<^verbatim>\<open>track_id\<close> is \<open>stats_track_id\<close> here because the event owns the name.
\<close>

record TrackStats =
  stats_track_id :: string
  title :: string
  total_streams :: int
  unique_users :: int
  completion_pct :: rat
  avg_listen_s :: rat
  top_platform :: string
  top_region :: string
  user_set :: "string fset"
  listen_total :: int
  completions :: int
  platform_counts :: "(string \<times> int) list"
  region_counts :: "(string \<times> int) list"

datatype error = ZeroDivisionError | ValueError

text \<open>The dataclass constructor \<^verbatim>\<open>TrackStats(track_id, title)\<close> with its defaults.\<close>

definition TrackStats_init :: "string \<Rightarrow> string \<Rightarrow> TrackStats" where
  "TrackStats_init tid ttl =
     \<lparr>stats_track_id = tid, title = ttl, total_streams = 0, unique_users = 0,
      completion_pct = 0, avg_listen_s = 0, top_platform = [], top_region = [],
      user_set = {||}, listen_total = 0, completions = 0,
      platform_counts = [], region_counts = []\<rparr>"

subsection \<open>Python builtins used by the code\<close>

text \<open>\<^verbatim>\<open>d.get(k, default)\<close>.\<close>

definition dict_get :: "('k \<times> 'v) list \<Rightarrow> 'k \<Rightarrow> 'v \<Rightarrow> 'v" where
  "dict_get d k dflt = (case map_of d k of None \<Rightarrow> dflt | Some v \<Rightarrow> v)"

text \<open>
  \<^verbatim>\<open>max(iterable, key=f)\<close>: one pass from the left that keeps the current best and
  replaces it only by an element whose key is strictly greater, so the first of several
  maximal elements is returned; \<^verbatim>\<open>ValueError\<close> (here \<open>None\<close>) on an empty iterable.
\<close>

fun py_max_from :: "('a \<Rightarrow> int) \<Rightarrow> 'a \<Rightarrow> 'a list \<Rightarrow> 'a" where
  "py_max_from key best [] = best"
| "py_max_from key best (x # xs) =
     (if key best < key x then py_max_from key x xs else py_max_from key best xs)"

fun py_max :: "('a \<Rightarrow> int) \<Rightarrow> 'a list \<Rightarrow> 'a option" where
  "py_max key [] = None"
| "py_max key (x # xs) = Some (py_max_from key x xs)"

text \<open>
  \<^verbatim>\<open>max(d, key=d.get)\<close> iterates the keys of \<open>d\<close> in insertion order and compares the
  counts stored under them: over the association list, the entry with the first
  maximal count, of which the key is returned.
\<close>

definition dict_argmax :: "(string \<times> int) list \<Rightarrow> string option" where
  "dict_argmax d = map_option fst (py_max snd d)"

text \<open>\<^verbatim>\<open>round(x, ndigits)\<close> on the exact value: to the nearest multiple of
  \<open>10 ^ (- ndigits)\<close>, a tie going to the even one.\<close>

definition round_half_even :: "rat \<Rightarrow> int" where
  "round_half_even x =
     (let f = \<lfloor>x\<rfloor>; d = x - of_int f
      in if d < 1 / 2 then f else if 1 / 2 < d then f + 1
         else if even f then f else f + 1)"

definition py_round :: "rat \<Rightarrow> nat \<Rightarrow> rat" where
  "py_round x ndigits = of_int (round_half_even (x * 10 ^ ndigits)) / 10 ^ ndigits"

text \<open>
  \<^verbatim>\<open>sorted(xs, key=f, reverse=True)\<close>: CPython reverses the list, sorts it stably by
  ascending key and reverses the result, which keeps elements of equal key in their
  original order.
\<close>

definition py_sorted_reverse :: "('a \<Rightarrow> int) \<Rightarrow> 'a list \<Rightarrow> 'a list" where
  "py_sorted_reverse key xs = rev (sort_key key (rev xs))"

text \<open>The slice \<^verbatim>\<open>xs[:n]\<close>; a negative \<open>n\<close> counts from the end.\<close>

definition py_slice_to :: "'a list \<Rightarrow> int \<Rightarrow> 'a list" where
  "py_slice_to xs n =
     (if 0 \<le> n then take (nat n) xs else take (nat (int (length xs) + n)) xs)"

subsection \<open>\<^verbatim>\<open>TrackStats.ingest\<close>\<close>

text \<open>
  The statements of \<^verbatim>\<open>ingest\<close> in their order. The two divisions by
  \<^verbatim>\<open>self.total_streams\<close> raise \<^verbatim>\<open>ZeroDivisionError\<close> when the incremented counter is
  zero, and \<^verbatim>\<open>max\<close> raises \<^verbatim>\<open>ValueError\<close> on an empty dict.
\<close>

definition ingest :: "TrackStats \<Rightarrow> StreamEvent \<Rightarrow> error + TrackStats" where
  "ingest self event =
     (let total = total_streams self + 1;
          users = finsert (user_id event) (user_set self);
          listen = listen_total self + listened_s event
      in if total = 0 then Inl ZeroDivisionError
         else
           let avg = of_int listen / of_int total;
               compl = (if completed event then completions self + 1 else completions self);
               pct = py_round (of_int compl / of_int total * 100) 1;
               pcs = AList.update (platform event)
                       (dict_get (platform_counts self) (platform event) 0 + 1)
                       (platform_counts self);
               rcs = AList.update (region event)
                       (dict_get (region_counts self) (region event) 0 + 1)
                       (region_counts self)
           in case dict_argmax pcs of
                None \<Rightarrow> Inl ValueError
              | Some tp \<Rightarrow>
                  (case dict_argmax rcs of
                     None \<Rightarrow> Inl ValueError
                   | Some tr \<Rightarrow>
                       Inr (self\<lparr>total_streams := total,
                                 unique_users := int (fcard users),
                                 completion_pct := pct,
                                 avg_listen_s := avg,
                                 top_platform := tp,
                                 top_region := tr,
                                 user_set := users,
                                 listen_total := listen,
                                 completions := compl,
                                 platform_counts := pcs,
                                 region_counts := rcs\<rparr>)))"

text \<open>Feeding a list of events to one aggregate, in order; the first exception ends it.\<close>

fun ingest_all :: "TrackStats \<Rightarrow> StreamEvent list \<Rightarrow> error + TrackStats" where
  "ingest_all self [] = Inr self"
| "ingest_all self (e # es) =
     (case ingest self e of Inl err \<Rightarrow> Inl err | Inr self' \<Rightarrow> ingest_all self' es)"

subsection \<open>\<^verbatim>\<open>StreamProcessor\<close>\<close>

record StreamProcessor =
  catalog_map :: "(string \<times> track) list"
  stats :: "(string \<times> TrackStats) list"
  window :: "rat list"
  total_processed :: int
  anomalies :: "string list"

definition WINDOW_SIZE :: int where
  "WINDOW_SIZE = 60"

text \<open>The dict comprehensions of \<^verbatim>\<open>__init__\<close>: one store per catalog entry, in order.\<close>

definition StreamProcessor_init :: StreamProcessor where
  "StreamProcessor_init =
     \<lparr>catalog_map = foldl (\<lambda>d t. AList.update (cat_track_id t) t d) [] CATALOG,
      stats = foldl (\<lambda>d t. AList.update (cat_track_id t)
                              (TrackStats_init (cat_track_id t) (cat_title t)) d) [] CATALOG,
      window = [],
      total_processed = 0,
      anomalies = []\<rparr>"

text \<open>The loop \<^verbatim>\<open>while self._window and self._window[0] < cutoff: popleft()\<close>.\<close>

fun evict :: "rat \<Rightarrow> rat list \<Rightarrow> rat list" where
  "evict cutoff [] = []"
| "evict cutoff (t # ts) = (if t < cutoff then evict cutoff ts else t # ts)"

text \<open>
  \<^verbatim>\<open>process(event)\<close>, with \<open>now\<close> the value \<^verbatim>\<open>time.time()\<close> returns in this call (it
  is not read when the event is dropped). The aggregate is mutated in place, so its
  entry keeps its position in \<open>stats\<close>.
\<close>

definition process :: "StreamProcessor \<Rightarrow> rat \<Rightarrow> StreamEvent \<Rightarrow> error + StreamProcessor" where
  "process self now event =
     (case map_of (stats self) (track_id event) of
        None \<Rightarrow> Inr self
      | Some st \<Rightarrow>
          (case ingest st event of
             Inl err \<Rightarrow> Inl err
           | Inr st' \<Rightarrow>
               let cutoff = now - of_int WINDOW_SIZE
               in Inr (self\<lparr>stats := AList.update (track_id event) st' (stats self),
                            total_processed := total_processed self + 1,
                            window := evict cutoff (window self @ [now])\<rparr>)))"

definition throughput :: "StreamProcessor \<Rightarrow> rat" where
  "throughput self = of_nat (length (window self)) / of_int WINDOW_SIZE"

text \<open>
  \<^verbatim>\<open>process_batch(events)\<close>: the \<^verbatim>\<open>for\<close> loop; each event comes with the clock
  reading of its \<^verbatim>\<open>process\<close> call.
\<close>

fun process_batch :: "StreamProcessor \<Rightarrow> (rat \<times> StreamEvent) list \<Rightarrow> error + StreamProcessor" where
  "process_batch self [] = Inr self"
| "process_batch self ((now, e) # es) =
     (case process self now e of Inl err \<Rightarrow> Inl err | Inr self' \<Rightarrow> process_batch self' es)"

definition top_tracks :: "StreamProcessor \<Rightarrow> int \<Rightarrow> TrackStats list" where
  "top_tracks self n = py_slice_to (py_sorted_reverse total_streams (map snd (stats self))) n"

record summary_view =
  total_events_processed :: int
  unique_tracks_streamed :: int
  throughput_eps :: rat
  top_3_tracks :: "(string \<times> int) list"

definition summary :: "StreamProcessor \<Rightarrow> summary_view" where
  "summary self =
     (let top = top_tracks self 3
      in \<lparr>total_events_processed = total_processed self,
          unique_tracks_streamed =
            int (length (filter (\<lambda>s. 0 < total_streams s) (map snd (stats self)))),
          throughput_eps = py_round (throughput self) 2,
          top_3_tracks = map (\<lambda>s. (title s, total_streams s)) top\<rparr>)"

subsection \<open>Sample events\<close>

text \<open>An event on track \<open>t\<close> by user \<open>u\<close>, for the concrete runs below.\<close>

definition play :: "string \<Rightarrow> string \<Rightarrow> string \<Rightarrow> string \<Rightarrow> int \<Rightarrow> bool \<Rightarrow> StreamEvent" where
  "play t u p r l c =
     \<lparr>event_id = ''e'', track_id = t, user_id = u, platform = p, region = r,
      device = ''Web'', timestamp = 0, listened_s = l, completed = c\<rparr>"

subsection \<open>Sequential calls, as the specification words them\<close>

text \<open>
  Calling \<open>process\<close> on each event of the list in turn, threading the engine through
  the calls; once a call has raised, nothing further runs.
\<close>

definition sequential_process ::
  "StreamProcessor \<Rightarrow> (rat \<times> StreamEvent) list \<Rightarrow> error + StreamProcessor" where
  "sequential_process self evs =
     foldl (\<lambda>r (now, e). case r of Inl err \<Rightarrow> Inl err | Inr s \<Rightarrow> process s now e)
       (Inr self) evs"

subsection \<open>Tallies\<close>

text \<open>
  The statement \<^verbatim>\<open>d[v] = d.get(v, 0) + 1\<close> of \<open>ingest\<close>, and the dict it builds from
  the empty one over a sequence of values.
\<close>

definition count_up :: "(string \<times> int) list \<Rightarrow> string \<Rightarrow> (string \<times> int) list" where
  "count_up d v = AList.update v (dict_get d v 0 + 1) d"

definition tally :: "string list \<Rightarrow> (string \<times> int) list" where
  "tally vs = foldl count_up [] vs"

text \<open>The position of the first occurrence of \<open>v\<close> in \<open>vs\<close> (the length when absent).\<close>

definition first_pos :: "'a \<Rightarrow> 'a list \<Rightarrow> nat" where
  "first_pos v vs = length (takeWhile (\<lambda>x. x \<noteq> v) vs)"

subsection \<open>The selected top value, as the specification words it\<close>

text \<open>
  Step 5 of the specification's ingest: a current leader next to the tally, replaced
  by the incoming value only when that value's new count is strictly greater than the
  leader's count.
\<close>

fun spec_leader_step ::
  "string \<times> (string \<times> int) list \<Rightarrow> string \<Rightarrow> string \<times> (string \<times> int) list" where
  "spec_leader_step (leader, counts) v =
     (let counts' = count_up counts v
      in (if dict_get counts' leader 0 < dict_get counts' v 0 then v else leader, counts'))"

definition spec_leader :: "string list \<Rightarrow> string" where
  "spec_leader vs = fst (foldl spec_leader_step ([], []) vs)"

text \<open>
  What the code selects instead: \<open>t\<close> occurs in \<open>vs\<close>, no value occurs more often,
  and every other value that occurs as often was first seen later than \<open>t\<close>.
\<close>

definition first_seen_argmax :: "string list \<Rightarrow> string \<Rightarrow> bool" where
  "first_seen_argmax vs t \<longleftrightarrow>
     t \<in> set vs
     \<and> (\<forall>v\<in>set vs. count_list vs v \<le> count_list vs t)
     \<and> (\<forall>v\<in>set vs. v \<noteq> t \<and> count_list vs v = count_list vs t
           \<longrightarrow> first_pos t vs < first_pos v vs)"

subsection \<open>Engine invariant and leaderboard order\<close>

text \<open>
  What every engine reachable from the constructor satisfies: each aggregate sits
  under its own \<open>track_id\<close> with a counter that is not negative, and the counters add
  up to \<open>total_processed\<close>.
\<close>

definition engine_ok :: "StreamProcessor \<Rightarrow> bool" where
  "engine_ok s \<longleftrightarrow>
     (\<forall>(k, st)\<in>set (stats s). stats_track_id st = k \<and> 0 \<le> total_streams st)
     \<and> sum_list (map (total_streams \<circ> snd) (stats s)) = total_processed s"

text \<open>
  The order of the leaderboard: more streams first, and at equal streams the track
  declared earlier in \<open>CATALOG\<close> first.
\<close>

definition ranks_before :: "TrackStats \<Rightarrow> TrackStats \<Rightarrow> bool" where
  "ranks_before a b \<longleftrightarrow>
     total_streams b < total_streams a
     \<or> (total_streams a = total_streams b
        \<and> first_pos (stats_track_id a) (map cat_track_id CATALOG)
            < first_pos (stats_track_id b) (map cat_track_id CATALOG))"

section \<open>The engine\<close>

subsection \<open>The initial state\<close>

lemma stats_init:
  "stats StreamProcessor_init =
     map (\<lambda>t. (cat_track_id t, TrackStats_init (cat_track_id t) (cat_title t))) CATALOG"
  by (simp add: StreamProcessor_init_def CATALOG_def)

lemma catalog_ids:
  "map cat_track_id CATALOG =
     [''jw-001'', ''jw-002'', ''jw-003'', ''jw-004'', ''jw-005'',
      ''jw-006'', ''jw-007'', ''jw-008'', ''jw-009'', ''jw-010'']"
  by (simp add: CATALOG_def)

lemma catalog_ids_distinct: "distinct (map cat_track_id CATALOG)"
  unfolding catalog_ids by simp

lemma keys_init: "map fst (stats StreamProcessor_init) = map cat_track_id CATALOG"
  by (simp add: stats_init comp_def)

text \<open>
  C10. On a freshly constructed engine every aggregate is the dataclass default: no
  streams, no users, completion and average 0.0, empty top platform and region; and
  the read accessors return without error: the throughput is 0, the leaderboard of an
  engine without traffic is the catalog in its order, cut to \<open>n\<close> entries.
\<close>

theorem fresh_engine_reads:
  "map snd (stats StreamProcessor_init)
     = map (\<lambda>t. TrackStats_init (cat_track_id t) (cat_title t)) CATALOG
   \<and> total_streams (TrackStats_init tid ttl) = 0
   \<and> unique_users (TrackStats_init tid ttl) = 0
   \<and> completion_pct (TrackStats_init tid ttl) = 0
   \<and> avg_listen_s (TrackStats_init tid ttl) = 0
   \<and> top_platform (TrackStats_init tid ttl) = []
   \<and> top_region (TrackStats_init tid ttl) = []
   \<and> throughput StreamProcessor_init = 0
   \<and> top_tracks StreamProcessor_init n
       = py_slice_to (map (\<lambda>t. TrackStats_init (cat_track_id t) (cat_title t)) CATALOG) n"
proof -
  have a: "map snd (stats StreamProcessor_init)
     = map (\<lambda>t. TrackStats_init (cat_track_id t) (cat_title t)) CATALOG"
    by (simp add: stats_init comp_def)
  have b: "throughput StreamProcessor_init = 0"
    by (simp add: throughput_def StreamProcessor_init_def)
  have "sort_key total_streams
          (rev (map (\<lambda>t. TrackStats_init (cat_track_id t) (cat_title t)) CATALOG))
        = rev (map (\<lambda>t. TrackStats_init (cat_track_id t) (cat_title t)) CATALOG)"
    by (simp add: CATALOG_def TrackStats_init_def)
  then have c: "top_tracks StreamProcessor_init n
       = py_slice_to (map (\<lambda>t. TrackStats_init (cat_track_id t) (cat_title t)) CATALOG) n"
    by (simp add: top_tracks_def py_sorted_reverse_def a)
  show ?thesis
    using a b c by (simp add: TrackStats_init_def)
qed

subsection \<open>Unknown tracks\<close>

text \<open>
  C4. An event whose \<open>track_id\<close> is not a key of \<open>stats\<close> is dropped: \<open>process\<close>
  returns normally and the engine (every aggregate, the counter, the window) is the
  one it was given.
\<close>

theorem process_unknown_noop:
  "track_id event \<notin> fst ` set (stats self) \<Longrightarrow> process self now event = Inr self"
  by (simp add: process_def map_of_eq_None_iff [THEN iffD2])

theorem process_unknown_noop_witness:
  "track_id (play ''jw-999'' ''user_00001'' ''Tidal'' ''APAC'' 120 True)
     \<notin> fst ` set (stats StreamProcessor_init)
   \<and> process StreamProcessor_init 5 (play ''jw-999'' ''user_00001'' ''Tidal'' ''APAC'' 120 True)
       = Inr StreamProcessor_init"
proof -
  have h: "track_id (play ''jw-999'' ''user_00001'' ''Tidal'' ''APAC'' 120 True)
             \<notin> fst ` set (stats StreamProcessor_init)"
    by (simp add: play_def stats_init CATALOG_def)
  show ?thesis
    using h process_unknown_noop [OF h, of 5] by simp
qed

subsection \<open>Batches\<close>

lemma sequential_from_error:
  "foldl (\<lambda>r (now, e). case r of Inl err \<Rightarrow> Inl err | Inr s \<Rightarrow> process s now e) (Inl err) evs
     = Inl err"
  by (induction evs) (auto split: prod.splits)

text \<open>
  C9. \<open>process_batch\<close> on a list of events is the same result (final engine, or the
  exception that stopped it) as calling \<open>process\<close> on each event in list order.
\<close>

theorem process_batch_sequential:
  "process_batch self evs = sequential_process self evs"
proof (induction evs arbitrary: self)
  case Nil
  show ?case by (simp add: sequential_process_def)
next
  case (Cons x evs)
  obtain now e where x: "x = (now, e)" by (cases x)
  show ?case
  proof (cases "process self now e")
    case (Inl err)
    then show ?thesis
      by (simp add: x sequential_process_def sequential_from_error)
  next
    case (Inr s)
    then show ?thesis
      using Cons.IH [of s] by (simp add: x sequential_process_def)
  qed
qed

section \<open>The aggregate\<close>

subsection \<open>Tallies and first occurrences\<close>

lemma tally_snoc: "tally (vs @ [v]) = count_up (tally vs) v"
  by (simp add: tally_def)

lemma map_of_tally:
  "map_of (tally vs) v = (if v \<in> set vs then Some (int (count_list vs v)) else None)"
proof (induction vs rule: rev_induct)
  case Nil
  show ?case by (simp add: tally_def)
next
  case (snoc x xs)
  show ?case
  proof (cases "v = x")
    case True
    then show ?thesis
      using snoc by (simp add: tally_snoc count_up_def update_conv' dict_get_def)
  next
    case False
    then show ?thesis
      using snoc by (simp add: tally_snoc count_up_def update_conv')
  qed
qed

lemma set_keys_tally: "set (map fst (tally vs)) = set vs"
proof -
  have "fst ` set (tally vs) = dom (map_of (tally vs))"
    by (simp add: dom_map_of_conv_image_fst)
  also have "\<dots> = set vs"
    by (auto simp: map_of_tally dom_def)
  finally show ?thesis by simp
qed

lemma keys_tally_snoc:
  "map fst (tally (vs @ [v])) =
     (if v \<in> set vs then map fst (tally vs) else map fst (tally vs) @ [v])"
  using set_keys_tally [of vs] by (simp add: tally_snoc count_up_def update_keys)

lemma distinct_keys_tally: "distinct (map fst (tally vs))"
  by (induction vs rule: rev_induct)
     (simp_all add: tally_def tally_snoc count_up_def distinct_update)

lemma first_pos_less: "v \<in> set vs \<Longrightarrow> first_pos v vs < length vs"
proof -
  assume "v \<in> set vs"
  then have "takeWhile (\<lambda>x. x \<noteq> v) vs \<noteq> vs"
    by (auto simp: takeWhile_eq_all_conv)
  then have "length (takeWhile (\<lambda>x. x \<noteq> v) vs) \<noteq> length vs"
    by (metis takeWhile_eq_take take_all_iff order_refl)
  then show ?thesis
    using length_takeWhile_le [of "\<lambda>x. x \<noteq> v" vs] by (simp add: first_pos_def)
qed

lemma first_pos_snoc_old: "a \<in> set vs \<Longrightarrow> first_pos a (vs @ [v]) = first_pos a vs"
  by (simp add: first_pos_def takeWhile_append1)

lemma first_pos_snoc_new: "v \<notin> set vs \<Longrightarrow> first_pos v (vs @ [v]) = length vs"
proof -
  assume "v \<notin> set vs"
  then have "\<And>x. x \<in> set vs \<Longrightarrow> x \<noteq> v" by auto
  then have "takeWhile (\<lambda>x. x \<noteq> v) (vs @ [v]) = vs @ takeWhile (\<lambda>x. x \<noteq> v) [v]"
    by (rule takeWhile_append2)
  then show ?thesis by (simp add: first_pos_def)
qed

lemma keys_tally_first_seen:
  "sorted_wrt (\<lambda>a b. first_pos a vs < first_pos b vs) (map fst (tally vs))"
proof (induction vs rule: rev_induct)
  case Nil
  show ?case by (simp add: tally_def)
next
  case (snoc v vs)
  have old: "sorted_wrt (\<lambda>a b. first_pos a (vs @ [v]) < first_pos b (vs @ [v])) (map fst (tally vs))"
  proof (rule sorted_wrt_mono_rel [OF _ snoc])
    fix a b
    assume "a \<in> set (map fst (tally vs))" and "b \<in> set (map fst (tally vs))"
      and "first_pos a vs < first_pos b vs"
    then show "first_pos a (vs @ [v]) < first_pos b (vs @ [v])"
      unfolding set_keys_tally by (simp add: first_pos_snoc_old)
  qed
  show ?case
  proof (cases "v \<in> set vs")
    case True
    then show ?thesis using old by (simp add: keys_tally_snoc)
  next
    case False
    have "\<forall>a\<in>set (map fst (tally vs)). first_pos a (vs @ [v]) < first_pos v (vs @ [v])"
      unfolding set_keys_tally
      using False by (simp add: first_pos_snoc_old first_pos_snoc_new first_pos_less)
    then show ?thesis
      using old False by (simp add: keys_tally_snoc sorted_wrt_append)
  qed
qed

subsection \<open>The first maximum\<close>

lemma py_max_from_ge_best: "key b \<le> key (py_max_from key b xs)"
proof (induction xs arbitrary: b)
  case Nil
  show ?case by simp
next
  case (Cons x xs)
  show ?case
    using Cons [of x] Cons [of b] by auto
qed

lemma py_max_from_ge: "y \<in> set xs \<Longrightarrow> key y \<le> key (py_max_from key b xs)"
proof (induction xs arbitrary: b)
  case Nil
  then show ?case by simp
next
  case (Cons x xs)
  show ?case
  proof (cases "y = x")
    case True
    show ?thesis
      using py_max_from_ge_best [of key x xs] py_max_from_ge_best [of key b xs]
      by (auto simp: True)
  next
    case False
    then have "y \<in> set xs" using Cons.prems by simp
    then show ?thesis
      using Cons.IH [of x] Cons.IH [of b] by auto
  qed
qed

lemma py_max_from_first:
  "\<exists>ys zs. b # xs = ys @ py_max_from key b xs # zs
     \<and> (\<forall>y\<in>set ys. key y < key (py_max_from key b xs))"
proof (induction xs arbitrary: b)
  case Nil
  have "[b] = [] @ py_max_from key b [] # [] \<and> (\<forall>y\<in>set []. key y < key (py_max_from key b []))"
    by simp
  then show ?case by blast
next
  case (Cons x xs)
  show ?case
  proof (cases "key b < key x")
    case True
    define m where "m = py_max_from key x xs"
    have step: "py_max_from key b (x # xs) = m"
      using True by (simp add: m_def)
    obtain ys zs where d: "x # xs = ys @ m # zs" and l: "\<forall>y\<in>set ys. key y < key m"
      using Cons [of x] unfolding m_def by blast
    have "key b < key m"
      using True py_max_from_ge_best [of key x xs] by (simp add: m_def)
    then have "b # x # xs = (b # ys) @ m # zs \<and> (\<forall>y\<in>set (b # ys). key y < key m)"
      using d l by simp
    then show ?thesis unfolding step by blast
  next
    case False
    define m where "m = py_max_from key b xs"
    have step: "py_max_from key b (x # xs) = m"
      using False by (simp add: m_def)
    obtain ys zs where d: "b # xs = ys @ m # zs" and l: "\<forall>y\<in>set ys. key y < key m"
      using Cons [of b] unfolding m_def by blast
    show ?thesis
    proof (cases ys)
      case Nil
      then have "b # x # xs = [] @ m # (x # xs) \<and> (\<forall>y\<in>set []. key y < key m)"
        using d by simp
      then show ?thesis unfolding step by blast
    next
      case (Cons y ys')
      then have yb: "y = b" and xs: "xs = ys' @ m # zs"
        using d by simp_all
      have "key b < key m"
        using l Cons yb by simp
      then have "key x < key m"
        using False by simp
      then have "b # x # xs = (b # x # ys') @ m # zs \<and> (\<forall>y\<in>set (b # x # ys'). key y < key m)"
        using xs l Cons yb by simp
      then show ?thesis unfolding step by blast
    qed
  qed
qed

lemma dict_argmax_first:
  assumes "d \<noteq> []"
  shows "\<exists>t c ys zs. dict_argmax d = Some t \<and> d = ys @ (t, c) # zs
           \<and> (\<forall>y\<in>set ys. snd y < c) \<and> (\<forall>z\<in>set zs. snd z \<le> c)"
proof -
  obtain b xs where d: "d = b # xs"
    using assms by (cases d) auto
  obtain ys zs where s: "b # xs = ys @ py_max_from snd b xs # zs"
    and l: "\<forall>y\<in>set ys. snd y < snd (py_max_from snd b xs)"
    using py_max_from_first [of b xs snd] by blast
  have "\<forall>z\<in>set zs. snd z \<le> snd (py_max_from snd b xs)"
  proof
    fix z assume "z \<in> set zs"
    then have "z \<in> set (b # xs)" using s by simp
    then show "snd z \<le> snd (py_max_from snd b xs)"
      using py_max_from_ge [of z xs snd b] py_max_from_ge_best [of snd b xs] by auto
  qed
  moreover have "dict_argmax d = Some (fst (py_max_from snd b xs))"
    by (simp add: d dict_argmax_def)
  moreover have "d = ys @ (fst (py_max_from snd b xs), snd (py_max_from snd b xs)) # zs"
    using d s by simp
  ultimately show ?thesis
    using l by blast
qed

subsection \<open>One ingest, and a run of them\<close>

lemma dict_argmax_count_up:
  "dict_argmax (count_up d v) = Some (the (dict_argmax (count_up d v)))"
proof -
  have "count_up d v \<noteq> []"
    by (simp add: count_up_def)
  then obtain t where "dict_argmax (count_up d v) = Some t"
    using dict_argmax_first [of "count_up d v"] by blast
  then show ?thesis by simp
qed

lemma ingest_Inr:
  assumes "total_streams st \<noteq> - 1"
  shows "ingest st e =
    Inr (st\<lparr>total_streams := total_streams st + 1,
            unique_users := int (fcard (finsert (user_id e) (user_set st))),
            completion_pct :=
              py_round (of_int (if completed e then completions st + 1 else completions st)
                          / of_int (total_streams st + 1) * 100) 1,
            avg_listen_s := of_int (listen_total st + listened_s e) / of_int (total_streams st + 1),
            top_platform := the (dict_argmax (count_up (platform_counts st) (platform e))),
            top_region := the (dict_argmax (count_up (region_counts st) (region e))),
            user_set := finsert (user_id e) (user_set st),
            listen_total := listen_total st + listened_s e,
            completions := (if completed e then completions st + 1 else completions st),
            platform_counts := count_up (platform_counts st) (platform e),
            region_counts := count_up (region_counts st) (region e)\<rparr>)"
proof -
  have nz: "total_streams st + 1 \<noteq> 0"
    using assms by arith
  have p: "dict_argmax (AList.update (platform e) (dict_get (platform_counts st) (platform e) 0 + 1)
             (platform_counts st))
           = Some (the (dict_argmax (count_up (platform_counts st) (platform e))))"
    using dict_argmax_count_up [of "platform_counts st" "platform e"]
    by (simp add: count_up_def)
  have r: "dict_argmax (AList.update (region e) (dict_get (region_counts st) (region e) 0 + 1)
             (region_counts st))
           = Some (the (dict_argmax (count_up (region_counts st) (region e))))"
    using dict_argmax_count_up [of "region_counts st" "region e"]
    by (simp add: count_up_def)
  show ?thesis
    unfolding ingest_def Let_def
    by (simp only: nz if_False p r option.case) (simp add: count_up_def)
qed

lemma ingest_all_snoc:
  "ingest_all st (es @ [e]) =
     (case ingest_all st es of Inl err \<Rightarrow> Inl err | Inr st' \<Rightarrow> ingest st' e)"
  by (induction es arbitrary: st) (auto split: sum.splits)

text \<open>
  From a fresh aggregate no run of ingests raises, and the counters are those of the
  events fed so far.
\<close>

lemma ingest_all_fresh_counters:
  "\<exists>st. ingest_all (TrackStats_init tid ttl) evs = Inr st
     \<and> stats_track_id st = tid \<and> title st = ttl
     \<and> total_streams st = int (length evs)
     \<and> listen_total st = sum_list (map listened_s evs)
     \<and> completions st = int (length (filter completed evs))
     \<and> user_set st = fset_of_list (map user_id evs)
     \<and> platform_counts st = tally (map platform evs)
     \<and> region_counts st = tally (map region evs)"
proof (induction evs rule: rev_induct)
  case Nil
  show ?case by (simp add: TrackStats_init_def tally_def)
next
  case (snoc e es)
  then obtain st where run: "ingest_all (TrackStats_init tid ttl) es = Inr st"
    and f: "stats_track_id st = tid" "title st = ttl"
      "total_streams st = int (length es)"
      "listen_total st = sum_list (map listened_s es)"
      "completions st = int (length (filter completed es))"
      "user_set st = fset_of_list (map user_id es)"
      "platform_counts st = tally (map platform es)"
      "region_counts st = tally (map region es)"
    by blast
  have "total_streams st \<noteq> - 1"
    using f(3) by simp
  note step = ingest_Inr [OF this, of e]
  have u: "fset_of_list (map user_id es @ [user_id e]) = finsert (user_id e) (fset_of_list (map user_id es))"
    by auto
  show ?case
    unfolding ingest_all_snoc run sum.case step
    by (rule exI, rule conjI, rule refl) (simp add: f tally_snoc u del: fset_of_list_map fset_of_list_append)
qed

text \<open>
  After at least one ingest the derived fields are the functions of the counters that
  the last ingest computed.
\<close>

lemma ingest_all_fresh_derived:
  assumes "evs \<noteq> []"
  shows "\<exists>st. ingest_all (TrackStats_init tid ttl) evs = Inr st
     \<and> total_streams st = int (length evs)
     \<and> listen_total st = sum_list (map listened_s evs)
     \<and> completions st = int (length (filter completed evs))
     \<and> user_set st = fset_of_list (map user_id evs)
     \<and> platform_counts st = tally (map platform evs)
     \<and> region_counts st = tally (map region evs)
     \<and> unique_users st = int (fcard (user_set st))
     \<and> avg_listen_s st = of_int (listen_total st) / of_int (total_streams st)
     \<and> completion_pct st = py_round (of_int (completions st) / of_int (total_streams st) * 100) 1
     \<and> dict_argmax (platform_counts st) = Some (top_platform st)
     \<and> dict_argmax (region_counts st) = Some (top_region st)"
proof -
  obtain es e where evs: "evs = es @ [e]"
    using assms by (cases evs rule: rev_cases) auto
  obtain st0 where run: "ingest_all (TrackStats_init tid ttl) es = Inr st0"
    and t0: "total_streams st0 = int (length es)"
    using ingest_all_fresh_counters [of tid ttl es] by blast
  have "total_streams st0 \<noteq> - 1"
    using t0 by simp
  note step = ingest_Inr [OF this, of e]
  obtain st where fin: "ingest_all (TrackStats_init tid ttl) evs = Inr st"
    and c: "total_streams st = int (length evs)"
      "listen_total st = sum_list (map listened_s evs)"
      "completions st = int (length (filter completed evs))"
      "user_set st = fset_of_list (map user_id evs)"
      "platform_counts st = tally (map platform evs)"
      "region_counts st = tally (map region evs)"
    using ingest_all_fresh_counters [of tid ttl evs] by blast
  have "Inr st = ingest st0 e"
    using fin by (simp add: evs ingest_all_snoc run)
  then have st: "st = st0\<lparr>total_streams := total_streams st0 + 1,
            unique_users := int (fcard (finsert (user_id e) (user_set st0))),
            completion_pct :=
              py_round (of_int (if completed e then completions st0 + 1 else completions st0)
                          / of_int (total_streams st0 + 1) * 100) 1,
            avg_listen_s := of_int (listen_total st0 + listened_s e) / of_int (total_streams st0 + 1),
            top_platform := the (dict_argmax (count_up (platform_counts st0) (platform e))),
            top_region := the (dict_argmax (count_up (region_counts st0) (region e))),
            user_set := finsert (user_id e) (user_set st0),
            listen_total := listen_total st0 + listened_s e,
            completions := (if completed e then completions st0 + 1 else completions st0),
            platform_counts := count_up (platform_counts st0) (platform e),
            region_counts := count_up (region_counts st0) (region e)\<rparr>"
    unfolding step by simp
  have d1: "unique_users st = int (fcard (user_set st))"
    by (subst (1 2) st) simp
  have d2: "avg_listen_s st = of_int (listen_total st) / of_int (total_streams st)"
    by (subst (1 2 3) st) simp
  have d3: "completion_pct st = py_round (of_int (completions st) / of_int (total_streams st) * 100) 1"
    by (subst (1 2 3) st) simp
  have d4: "dict_argmax (platform_counts st) = Some (top_platform st)"
    by (subst (1 2) st) (simp add: dict_argmax_count_up [symmetric])
  have d5: "dict_argmax (region_counts st) = Some (top_region st)"
    by (subst (1 2) st) (simp add: dict_argmax_count_up [symmetric])
  show ?thesis
    using fin c d1 d2 d3 d4 d5 by blast
qed

subsection \<open>Top platform and top region\<close>

lemma dict_argmax_tally:
  assumes "dict_argmax (tally vs) = Some t"
  shows "first_seen_argmax vs t"
proof -
  have ne: "tally vs \<noteq> []"
    using assms by (auto simp: dict_argmax_def)
  obtain t' c ys zs where a: "dict_argmax (tally vs) = Some t'"
    and d: "tally vs = ys @ (t', c) # zs"
    and lt: "\<forall>y\<in>set ys. snd y < c" and le: "\<forall>z\<in>set zs. snd z \<le> c"
    using dict_argmax_first [OF ne] by blast
  have t': "t' = t" using a assms by simp
  have keys: "map fst (tally vs) = map fst ys @ t # map fst zs"
    using d t' by simp
  have "t \<in> set (map fst (tally vs))"
    unfolding keys by simp
  then have mem: "t \<in> set vs"
    unfolding set_keys_tally .
  have "map_of (tally vs) t = Some c"
    using d t' distinct_keys_tally [of vs] by (intro map_of_is_SomeI) auto
  then have c: "c = int (count_list vs t)"
    using mem by (simp add: map_of_tally)
  have entry: "(v, int (count_list vs v)) \<in> set (tally vs)" if "v \<in> set vs" for v
    using that by (intro map_of_SomeD) (simp add: map_of_tally)
  have max: "count_list vs v \<le> count_list vs t" if "v \<in> set vs" for v
    using entry [OF that] lt le unfolding d c by auto
  have first: "first_pos t vs < first_pos v vs"
    if "v \<in> set vs" "v \<noteq> t" "count_list vs v = count_list vs t" for v
  proof -
    have "(v, c) \<in> set (tally vs)"
      using entry [OF that(1)] that(3) c by simp
    moreover have "(v, c) \<notin> set ys"
      using lt by auto
    ultimately have "(v, c) \<in> set zs"
      using that(2) unfolding d t' by auto
    then have "v \<in> set (map fst zs)"
      by force
    then show ?thesis
      using keys_tally_first_seen [of vs] unfolding keys
      by (auto simp: sorted_wrt_append)
  qed
  show ?thesis
    unfolding first_seen_argmax_def using mem max first by blast
qed

text \<open>
  C1, as the code has it. After at least one ingest into a fresh aggregate, the top
  platform is a platform of highest count among the events ingested, and among the
  platforms that share this count it is the one first seen; likewise the top region.
  (So a leader is replaced by a strictly greater count, and also by an earlier-seen
  value that catches up with it.)
\<close>

theorem top_is_first_seen_maximum:
  "evs \<noteq> [] \<Longrightarrow>
   \<exists>st. ingest_all (TrackStats_init tid ttl) evs = Inr st
     \<and> first_seen_argmax (map platform evs) (top_platform st)
     \<and> first_seen_argmax (map region evs) (top_region st)"
proof -
  assume "evs \<noteq> []"
  then obtain st where run: "ingest_all (TrackStats_init tid ttl) evs = Inr st"
    and p: "platform_counts st = tally (map platform evs)"
      "dict_argmax (platform_counts st) = Some (top_platform st)"
    and r: "region_counts st = tally (map region evs)"
      "dict_argmax (region_counts st) = Some (top_region st)"
    using ingest_all_fresh_derived [of evs tid ttl] by blast
  have "first_seen_argmax (map platform evs) (top_platform st)"
    using p by (intro dict_argmax_tally) simp
  moreover have "first_seen_argmax (map region evs) (top_region st)"
    using r by (intro dict_argmax_tally) simp
  ultimately show ?thesis
    using run by blast
qed

theorem top_is_first_seen_maximum_witness:
  "map_sum id top_platform
     (ingest_all (TrackStats_init ''jw-001'' ''In My Room'')
        [play ''jw-001'' ''user_00001'' ''Spotify'' ''US-West'' 100 False,
         play ''jw-001'' ''user_00002'' ''Tidal'' ''US-East'' 150 True,
         play ''jw-001'' ''user_00003'' ''Tidal'' ''US-East'' 183 True,
         play ''jw-001'' ''user_00001'' ''Spotify'' ''APAC'' 170 True]) = Inr ''Spotify''
   \<and> first_seen_argmax [''Spotify'', ''Tidal'', ''Tidal'', ''Spotify''] ''Spotify''
   \<and> first_seen_argmax [''US-West'', ''US-East'', ''US-East'', ''APAC''] ''US-East''"
proof -
  let ?evs = "[play ''jw-001'' ''user_00001'' ''Spotify'' ''US-West'' 100 False,
         play ''jw-001'' ''user_00002'' ''Tidal'' ''US-East'' 150 True,
         play ''jw-001'' ''user_00003'' ''Tidal'' ''US-East'' 183 True,
         play ''jw-001'' ''user_00001'' ''Spotify'' ''APAC'' 170 True]"
  have ne: "?evs \<noteq> []" by simp
  obtain st where run: "ingest_all (TrackStats_init ''jw-001'' ''In My Room'') ?evs = Inr st"
    and p: "first_seen_argmax (map platform ?evs) (top_platform st)"
    and r: "first_seen_argmax (map region ?evs) (top_region st)"
    using top_is_first_seen_maximum [OF ne, of "''jw-001''" "''In My Room''"] by blast
  have tp: "map_sum id top_platform (ingest_all (TrackStats_init ''jw-001'' ''In My Room'') ?evs)
              = Inr ''Spotify''"
    by code_simp
  have tr: "map_sum id top_region (ingest_all (TrackStats_init ''jw-001'' ''In My Room'') ?evs)
              = Inr ''US-East''"
    by code_simp
  have "top_platform st = ''Spotify''" "top_region st = ''US-East''"
    using tp tr unfolding run by simp_all
  then show ?thesis
    using tp p r by (simp add: play_def)
qed

text \<open>
  C1 as stated fails. After Spotify, Tidal, Tidal the leader is Tidal with count 2; a
  second Spotify event ties the counts at 2 and the code selects Spotify, the key
  inserted first, although Tidal reached the final maximum first and the
  specification's rule keeps it.
\<close>

theorem top_platform_tie_counterexample:
  "map_sum id top_platform
     (ingest_all (TrackStats_init ''jw-001'' ''In My Room'')
        [play ''jw-001'' ''user_00001'' ''Spotify'' ''US-West'' 100 False,
         play ''jw-001'' ''user_00002'' ''Tidal'' ''US-East'' 150 True,
         play ''jw-001'' ''user_00003'' ''Tidal'' ''US-East'' 183 True]) = Inr ''Tidal''
   \<and> map_sum id top_platform
     (ingest_all (TrackStats_init ''jw-001'' ''In My Room'')
        [play ''jw-001'' ''user_00001'' ''Spotify'' ''US-West'' 100 False,
         play ''jw-001'' ''user_00002'' ''Tidal'' ''US-East'' 150 True,
         play ''jw-001'' ''user_00003'' ''Tidal'' ''US-East'' 183 True,
         play ''jw-001'' ''user_00001'' ''Spotify'' ''APAC'' 170 True]) = Inr ''Spotify''
   \<and> map_sum id platform_counts
     (ingest_all (TrackStats_init ''jw-001'' ''In My Room'')
        [play ''jw-001'' ''user_00001'' ''Spotify'' ''US-West'' 100 False,
         play ''jw-001'' ''user_00002'' ''Tidal'' ''US-East'' 150 True,
         play ''jw-001'' ''user_00003'' ''Tidal'' ''US-East'' 183 True,
         play ''jw-001'' ''user_00001'' ''Spotify'' ''APAC'' 170 True])
       = Inr [(''Spotify'', 2), (''Tidal'', 2)]
   \<and> spec_leader [''Spotify'', ''Tidal'', ''Tidal''] = ''Tidal''
   \<and> spec_leader [''Spotify'', ''Tidal'', ''Tidal'', ''Spotify''] = ''Tidal''"
  by code_simp

subsection \<open>Rounding\<close>







subsection \<open>Completion rate, average and distinct users\<close>





text \<open>
  C8. After any run of ingests into a fresh aggregate (the empty run included),
  \<open>unique_users\<close> is the number of distinct \<open>user_id\<close>s among the events ingested, and
  it is at most \<open>total_streams\<close>.
\<close>

theorem unique_users_exact:
  "\<exists>st. ingest_all (TrackStats_init tid ttl) evs = Inr st
     \<and> total_streams st = int (length evs)
     \<and> unique_users st = int (card (set (map user_id evs)))
     \<and> unique_users st \<le> total_streams st"
proof (cases "evs = []")
  case True
  then show ?thesis
    by (simp add: TrackStats_init_def)
next
  case False
  obtain st where run: "ingest_all (TrackStats_init tid ttl) evs = Inr st"
    and t: "total_streams st = int (length evs)"
    and u: "user_set st = fset_of_list (map user_id evs)"
    and n: "unique_users st = int (fcard (user_set st))"
    using ingest_all_fresh_derived [OF False, of tid ttl] by blast
  have eq: "unique_users st = int (card (set (map user_id evs)))"
    unfolding n u by (simp add: fcard.rep_eq fset_of_list.rep_eq)
  have "card (set (map user_id evs)) \<le> length (map user_id evs)"
    by (rule card_length)
  then have "unique_users st \<le> total_streams st"
    unfolding eq t by simp
  then show ?thesis
    using run t eq by blast
qed

section \<open>Reachable engines\<close>

subsection \<open>One call of process\<close>

lemma set_update_subset: "set (AList.update k v al) \<subseteq> insert (k, v) (set al)"
  by (induction al) auto

lemma sum_list_update:
  fixes f :: "'v \<Rightarrow> int"
  assumes "map_of al k = Some v"
  shows "sum_list (map (f \<circ> snd) (AList.update k v' al))
           = sum_list (map (f \<circ> snd) al) - f v + f v'"
  using assms by (induction al) (auto split: if_splits)

lemma engine_ok_init: "engine_ok StreamProcessor_init"
  by (simp add: engine_ok_def stats_init CATALOG_def TrackStats_init_def StreamProcessor_init_def)

lemma process_step:
  assumes ok: "engine_ok s"
  shows "\<exists>s'. process s now e = Inr s' \<and> engine_ok s'
           \<and> map fst (stats s') = map fst (stats s)
           \<and> total_processed s'
               = total_processed s + (if track_id e \<in> set (map fst (stats s)) then 1 else 0)"
proof (cases "map_of (stats s) (track_id e)")
  case None
  then have "track_id e \<notin> set (map fst (stats s))"
    by (simp add: map_of_eq_None_iff)
  then show ?thesis
    using None ok by (simp add: process_def)
next
  case (Some st)
  then have mem: "(track_id e, st) \<in> set (stats s)"
    by (rule map_of_SomeD)
  then have st: "stats_track_id st = track_id e" "0 \<le> total_streams st"
    using ok by (auto simp: engine_ok_def)
  then have "total_streams st \<noteq> - 1" by simp
  note step = ingest_Inr [OF this, of e]
  obtain st' where ing: "ingest st e = Inr st'"
    and t': "total_streams st' = total_streams st + 1"
    and i': "stats_track_id st' = stats_track_id st"
    unfolding step by simp
  define s' where "s' = s\<lparr>stats := AList.update (track_id e) st' (stats s),
                            total_processed := total_processed s + 1,
                            window := evict (now - of_int WINDOW_SIZE) (window s @ [now])\<rparr>"
  have run: "process s now e = Inr s'"
    by (simp add: process_def Some ing s'_def)
  have key: "track_id e \<in> set (map fst (stats s))"
    using mem by force
  have keys: "map fst (stats s') = map fst (stats s)"
    using key by (simp add: s'_def update_keys)
  have "\<forall>(k, a)\<in>set (stats s'). stats_track_id a = k \<and> 0 \<le> total_streams a"
  proof -
    have "set (stats s') \<subseteq> insert (track_id e, st') (set (stats s))"
      by (simp add: s'_def set_update_subset)
    moreover have "stats_track_id st' = track_id e \<and> 0 \<le> total_streams st'"
      using st t' i' by simp
    ultimately show ?thesis
      using ok by (auto simp: engine_ok_def)
  qed
  moreover have "sum_list (map (total_streams \<circ> snd) (stats s')) = total_processed s'"
    using ok sum_list_update [OF Some, of total_streams st'] t'
    by (simp add: s'_def engine_ok_def)
  ultimately have "engine_ok s'"
    by (simp add: engine_ok_def)
  moreover have "total_processed s' = total_processed s + 1"
    by (simp add: s'_def)
  ultimately show ?thesis
    using run keys key by simp
qed

lemma process_batch_steps:
  assumes "engine_ok s"
  shows "\<exists>s'. process_batch s evs = Inr s' \<and> engine_ok s'
           \<and> map fst (stats s') = map fst (stats s)
           \<and> total_processed s'
               = total_processed s
                 + int (length (filter (\<lambda>(now, e). track_id e \<in> set (map fst (stats s))) evs))"
  using assms
proof (induction evs arbitrary: s)
  case Nil
  then show ?case by simp
next
  case (Cons x evs)
  obtain now e where x: "x = (now, e)" by (cases x)
  obtain s1 where one: "process s now e = Inr s1" and ok1: "engine_ok s1"
    and k1: "map fst (stats s1) = map fst (stats s)"
    and n1: "total_processed s1
               = total_processed s + (if track_id e \<in> set (map fst (stats s)) then 1 else 0)"
    using process_step [OF Cons.prems, of now e] by blast
  obtain s' where rest: "process_batch s1 evs = Inr s'" and ok': "engine_ok s'"
    and k': "map fst (stats s') = map fst (stats s1)"
    and n': "total_processed s'
               = total_processed s1
                 + int (length (filter (\<lambda>(now, e). track_id e \<in> set (map fst (stats s1))) evs))"
    using Cons.IH [OF ok1] by blast
  have "process_batch s (x # evs) = Inr s'"
    by (simp add: x one rest)
  moreover have "map fst (stats s') = map fst (stats s)"
    using k' k1 by simp
  moreover have "total_processed s'
      = total_processed s
        + int (length (filter (\<lambda>(now, e). track_id e \<in> set (map fst (stats s))) (x # evs)))"
    unfolding n' n1 k1 by (simp add: x)
  ultimately show ?case
    using ok' by blast
qed

subsection \<open>Count conservation\<close>


subsection \<open>The leaderboard\<close>

lemma first_pos_Cons: "first_pos v (x # xs) = (if x = v then 0 else Suc (first_pos v xs))"
  by (simp add: first_pos_def)

lemma first_pos_nth: "distinct xs \<Longrightarrow> i < length xs \<Longrightarrow> first_pos (xs ! i) xs = i"
proof (induction xs arbitrary: i)
  case Nil
  then show ?case by simp
next
  case (Cons x xs)
  show ?case
  proof (cases i)
    case 0
    then show ?thesis by (simp add: first_pos_Cons)
  next
    case (Suc j)
    then have j: "j < length xs" using Cons.prems by simp
    then have "xs ! j \<in> set xs" by simp
    then have "x \<noteq> xs ! j" using Cons.prems by auto
    then show ?thesis
      using Cons.IH [of j] Cons.prems j by (simp add: Suc first_pos_Cons)
  qed
qed

lemma distinct_in_first_pos_order:
  assumes "distinct xs"
  shows "sorted_wrt (\<lambda>a b. first_pos a xs < first_pos b xs) xs"
  unfolding sorted_wrt_iff_nth_less
  using assms by (simp add: first_pos_nth)

lemma insort_key_sorted_wrt:
  fixes f :: "'a \<Rightarrow> int"
  assumes "sorted_wrt (\<lambda>a b. f a < f b \<or> (f a = f b \<and> Q a b)) zs"
    and "\<forall>z\<in>set zs. Q x z"
  shows "sorted_wrt (\<lambda>a b. f a < f b \<or> (f a = f b \<and> Q a b)) (insort_key f x zs)"
  using assms
proof (induction zs)
  case Nil
  then show ?case by simp
next
  case (Cons y zs)
  show ?case
  proof (cases "f x \<le> f y")
    case True
    have "f x < f w \<or> (f x = f w \<and> Q x w)" if "w \<in> set (y # zs)" for w
    proof -
      have "f y \<le> f w"
        using that Cons.prems(1) by auto
      then have "f x \<le> f w" using True by simp
      then show ?thesis
        using that Cons.prems(2) by auto
    qed
    then show ?thesis
      using True Cons.prems(1) by simp
  next
    case False
    have "sorted_wrt (\<lambda>a b. f a < f b \<or> (f a = f b \<and> Q a b)) (insort_key f x zs)"
      using Cons by simp
    then show ?thesis
      using False Cons.prems(1) by (auto simp: set_insort_key)
  qed
qed

lemma sort_key_sorted_wrt:
  fixes f :: "'a \<Rightarrow> int"
  assumes "sorted_wrt Q ys"
  shows "sorted_wrt (\<lambda>a b. f a < f b \<or> (f a = f b \<and> Q a b)) (sort_key f ys)"
  using assms
proof (induction ys)
  case Nil
  then show ?case by simp
next
  case (Cons y ys)
  have "sorted_wrt (\<lambda>a b. f a < f b \<or> (f a = f b \<and> Q a b)) (sort_key f ys)"
    using Cons by simp
  moreover have "\<forall>z\<in>set (sort_key f ys). Q y z"
    using Cons.prems by simp
  ultimately show ?case
    by (simp add: insort_key_sorted_wrt)
qed

text \<open>
  \<open>py_sorted_reverse\<close> is descending in the key, and keeps the input order among
  elements of equal key.
\<close>

lemma py_sorted_reverse_stable:
  fixes f :: "'a \<Rightarrow> int"
  assumes "sorted_wrt P xs"
  shows "sorted_wrt (\<lambda>a b. f b < f a \<or> (f a = f b \<and> P a b)) (py_sorted_reverse f xs)"
proof -
  have "sorted_wrt (\<lambda>a b. P b a) (rev xs)"
    using assms by (simp add: sorted_wrt_rev)
  then have "sorted_wrt (\<lambda>a b. f a < f b \<or> (f a = f b \<and> P b a)) (sort_key f (rev xs))"
    by (rule sort_key_sorted_wrt)
  then have "sorted_wrt (\<lambda>b a. f a < f b \<or> (f a = f b \<and> P b a)) (py_sorted_reverse f xs)"
    by (simp add: py_sorted_reverse_def sorted_wrt_rev)
  then show ?thesis
    by (rule sorted_wrt_mono_rel [rotated]) auto
qed

lemma mset_py_sorted_reverse: "mset (py_sorted_reverse f xs) = mset xs"
  by (simp add: py_sorted_reverse_def)

text \<open>
  C5. After any sequence of \<open>process\<close> calls on a fresh engine and for \<open>n \<ge> 0\<close>,
  \<open>top_tracks n\<close> is the first \<open>n\<close> entries of the ranking \<open>L\<close> of all aggregates (the
  keys of \<open>stats\<close> are still the catalog's, in declaration order) in which more
  streams come first and, at equal streams, the track declared earlier in the
  catalog comes first.
\<close>

theorem top_tracks_ranking:
  "0 \<le> n \<Longrightarrow>
   \<exists>s L. process_batch StreamProcessor_init evs = Inr s
     \<and> map fst (stats s) = map cat_track_id CATALOG
     \<and> mset L = mset (map snd (stats s))
     \<and> sorted_wrt ranks_before L
     \<and> top_tracks s n = take (nat n) L"
proof -
  assume n: "0 \<le> n"
  obtain s where run: "process_batch StreamProcessor_init evs = Inr s" and ok: "engine_ok s"
    and keys: "map fst (stats s) = map fst (stats StreamProcessor_init)"
    using process_batch_steps [OF engine_ok_init, of evs] by blast
  define ids where "ids = map cat_track_id CATALOG"
  define xs where "xs = map snd (stats s)"
  define L where "L = py_sorted_reverse total_streams xs"
  have k: "map fst (stats s) = ids"
    using keys by (simp add: keys_init ids_def)
  have "map (stats_track_id \<circ> snd) (stats s) = map fst (stats s)"
    using ok by (auto simp: engine_ok_def)
  then have own: "map stats_track_id xs = ids"
    using k by (simp add: xs_def)
  have "sorted_wrt (\<lambda>a b. first_pos a ids < first_pos b ids) (map stats_track_id xs)"
    unfolding own ids_def by (rule distinct_in_first_pos_order [OF catalog_ids_distinct])
  then have "sorted_wrt (\<lambda>a b. first_pos (stats_track_id a) ids < first_pos (stats_track_id b) ids) xs"
    by (simp add: sorted_wrt_map)
  then have "sorted_wrt (\<lambda>a b. total_streams b < total_streams a
       \<or> (total_streams a = total_streams b
          \<and> first_pos (stats_track_id a) ids < first_pos (stats_track_id b) ids)) L"
    unfolding L_def by (rule py_sorted_reverse_stable)
  then have sorted: "sorted_wrt ranks_before L"
    by (rule sorted_wrt_mono_rel [rotated]) (simp add: ranks_before_def ids_def)
  have perm: "mset L = mset (map snd (stats s))"
    by (simp add: L_def xs_def mset_py_sorted_reverse)
  have top: "top_tracks s n = take (nat n) L"
    using n by (simp add: top_tracks_def py_slice_to_def L_def xs_def)
  show ?thesis
    using run k [unfolded ids_def] perm sorted top by blast
qed

theorem top_tracks_ranking_witness:
  "(0::int) \<le> 1
   \<and> map_sum id (\<lambda>s. map stats_track_id (top_tracks s 1))
       (process_batch StreamProcessor_init
          [(0, play ''jw-002'' ''user_00001'' ''Spotify'' ''US-West'' 100 False),
           (1, play ''jw-001'' ''user_00002'' ''Tidal'' ''US-East'' 150 True)]) = Inr [''jw-001'']
   \<and> (\<exists>s L. process_batch StreamProcessor_init
          [(0, play ''jw-002'' ''user_00001'' ''Spotify'' ''US-West'' 100 False),
           (1, play ''jw-001'' ''user_00002'' ''Tidal'' ''US-East'' 150 True)] = Inr s
        \<and> sorted_wrt ranks_before L \<and> top_tracks s 1 = take 1 L)"
proof -
  let ?evs = "[(0, play ''jw-002'' ''user_00001'' ''Spotify'' ''US-West'' 100 False),
           (1, play ''jw-001'' ''user_00002'' ''Tidal'' ''US-East'' 150 True)]"
  have h: "(0::int) \<le> 1" by simp
  have ex: "\<exists>s L. process_batch StreamProcessor_init ?evs = Inr s
        \<and> sorted_wrt ranks_before L \<and> top_tracks s 1 = take 1 L"
    using top_tracks_ranking [OF h, of ?evs] by auto
  have ev: "map_sum id (\<lambda>s. map stats_track_id (top_tracks s 1))
       (process_batch StreamProcessor_init ?evs) = Inr [''jw-001'']"
    by code_simp
  show ?thesis
    using h ex ev by blast
qed

subsection \<open>Throughput\<close>

text \<open>
  C2 fails on the code. \<open>throughput\<close> reads the length of the window as the last
  \<open>process\<close> call left it and takes no clock reading, so nothing is evicted at read
  time: after one event processed at time 0 it is 1/60 whenever it is read, also more
  than 60 seconds later, where the claim says 0.
\<close>

theorem throughput_keeps_stale_entries:
  "map_sum id throughput
     (process StreamProcessor_init 0 (play ''jw-001'' ''user_00001'' ''Spotify'' ''US-West'' 100 False))
     = Inr (1 / 60)
   \<and> map_sum id window
     (process StreamProcessor_init 0 (play ''jw-001'' ''user_00001'' ''Spotify'' ''US-West'' 100 False))
     = Inr [0]"
  by code_simp

text \<open>
  Right after the events the reading is the expected one: a burst of events on catalog tracks
  whose clock readings lie within one time unit leaves all of them in the window of
  a fresh engine, so the throughput read right after it is their number over 60.
\<close>

lemma process_window:
  "process s now e = Inr s' \<Longrightarrow>
   window s' = (if track_id e \<in> set (map fst (stats s))
                then evict (now - of_int WINDOW_SIZE) (window s @ [now]) else window s)"
proof (cases "map_of (stats s) (track_id e)")
  case None
  assume "process s now e = Inr s'"
  then show ?thesis
    using None by (auto simp: process_def map_of_eq_None_iff)
next
  case (Some st)
  assume run: "process s now e = Inr s'"
  have "(track_id e, st) \<in> set (stats s)"
    using Some by (rule map_of_SomeD)
  then have "track_id e \<in> set (map fst (stats s))"
    by force
  then show ?thesis
    using run Some by (auto simp: process_def Let_def split: sum.splits)
qed

lemma evict_keeps: "\<forall>t\<in>set w. cutoff \<le> t \<Longrightarrow> evict cutoff w = w"
  by (cases w) auto

lemma burst_window:
  assumes "engine_ok s"
    and "\<forall>(now, e)\<in>set evs. track_id e \<in> set (map fst (stats s)) \<and> t0 \<le> now \<and> now \<le> t0 + 1"
    and "\<forall>t\<in>set (window s). t0 \<le> t"
  shows "\<exists>s'. process_batch s evs = Inr s' \<and> window s' = window s @ map fst evs"
  using assms
proof (induction evs arbitrary: s)
  case Nil
  then show ?case by simp
next
  case (Cons x evs)
  obtain now e where x: "x = (now, e)" by (cases x)
  have known: "track_id e \<in> set (map fst (stats s))" and lo: "t0 \<le> now" and hi: "now \<le> t0 + 1"
    using Cons.prems(2) by (auto simp: x)
  obtain s1 where one: "process s now e = Inr s1" and ok1: "engine_ok s1"
    and k1: "map fst (stats s1) = map fst (stats s)"
    using process_step [OF Cons.prems(1), of now e] by blast
  have "\<forall>t\<in>set (window s @ [now]). now - of_int WINDOW_SIZE \<le> t"
    using Cons.prems(3) lo hi by (auto simp: WINDOW_SIZE_def)
  then have w1: "window s1 = window s @ [now]"
    using process_window [OF one] known by (simp add: evict_keeps)
  have "\<forall>(now, e)\<in>set evs. track_id e \<in> set (map fst (stats s1)) \<and> t0 \<le> now \<and> now \<le> t0 + 1"
    using Cons.prems(2) unfolding k1 by simp
  moreover have "\<forall>t\<in>set (window s1). t0 \<le> t"
    using Cons.prems(3) lo by (simp add: w1)
  ultimately obtain s' where "process_batch s1 evs = Inr s'"
    and "window s' = window s1 @ map fst evs"
    using Cons.IH [OF ok1] by blast
  then show ?case
    by (simp add: x one w1)
qed

lemma throughput_after_burst:
  assumes "\<forall>(now, e)\<in>set evs.
             track_id e \<in> set (map cat_track_id CATALOG) \<and> t0 \<le> now \<and> now \<le> t0 + 1"
  shows "\<exists>s. process_batch StreamProcessor_init evs = Inr s
           \<and> throughput s = of_nat (length evs) / 60"
proof -
  have "\<forall>t\<in>set (window StreamProcessor_init). t0 \<le> t"
    by (simp add: StreamProcessor_init_def)
  then obtain s where "process_batch StreamProcessor_init evs = Inr s"
    and "window s = window StreamProcessor_init @ map fst evs"
    using burst_window [OF engine_ok_init, of evs t0] assms unfolding keys_init by blast
  then show ?thesis
    by (simp add: throughput_def WINDOW_SIZE_def StreamProcessor_init_def)
qed

subsection \<open>The aggregates of a reachable engine\<close>

text \<open>
  The engine changes an aggregate only through \<open>ingest\<close>: after a batch, the
  aggregate under a key is the one that ingesting the batch's events for this key, in
  their order, produces from the aggregate that was there before. With the fresh
  aggregates of the constructor, the statements about runs of ingests above are
  statements about every aggregate of every reachable engine.
\<close>

lemma process_aggregate:
  assumes "process s now e = Inr s1" and "map_of (stats s) k = Some st"
  shows "\<exists>st1. map_of (stats s1) k = Some st1
           \<and> (if track_id e = k then ingest st e = Inr st1 else st1 = st)"
proof (cases "track_id e = k")
  case True
  then show ?thesis
    using assms by (auto simp: process_def update_conv' split: sum.splits)
next
  case False
  show ?thesis
  proof (cases "map_of (stats s) (track_id e)")
    case None
    then show ?thesis
      using assms False by (simp add: process_def)
  next
    case (Some a)
    then show ?thesis
      using assms False by (auto simp: process_def update_conv' split: sum.splits)
  qed
qed

lemma process_batch_aggregate:
  assumes "process_batch s evs = Inr s'" and "map_of (stats s) k = Some st"
  shows "\<exists>st'. map_of (stats s') k = Some st'
           \<and> ingest_all st (filter (\<lambda>e. track_id e = k) (map snd evs)) = Inr st'"
  using assms
proof (induction evs arbitrary: s st)
  case Nil
  then show ?case by simp
next
  case (Cons x evs)
  obtain now e where x: "x = (now, e)" by (cases x)
  obtain s1 where one: "process s now e = Inr s1" and rest: "process_batch s1 evs = Inr s'"
    using Cons.prems(1) by (auto simp: x split: sum.splits)
  obtain st1 where m1: "map_of (stats s1) k = Some st1"
    and i1: "if track_id e = k then ingest st e = Inr st1 else st1 = st"
    using process_aggregate [OF one Cons.prems(2)] by blast
  obtain st' where "map_of (stats s') k = Some st'"
    and "ingest_all st1 (filter (\<lambda>e. track_id e = k) (map snd evs)) = Inr st'"
    using Cons.IH [OF rest m1] by blast
  then show ?case
    using i1 by (auto simp: x)
qed

lemma reachable_aggregate:
  assumes "process_batch StreamProcessor_init evs = Inr s"
    and "t \<in> set CATALOG"
  shows "\<exists>st ttl. map_of (stats s) (cat_track_id t) = Some st
           \<and> ingest_all (TrackStats_init (cat_track_id t) ttl)
                (filter (\<lambda>e. track_id e = cat_track_id t) (map snd evs)) = Inr st"
proof -
  have "cat_track_id t \<in> fst ` set (stats StreamProcessor_init)"
    using assms(2) by (force simp: stats_init)
  then obtain st0 where m: "map_of (stats StreamProcessor_init) (cat_track_id t) = Some st0"
    by (cases "map_of (stats StreamProcessor_init) (cat_track_id t)")
       (auto simp: map_of_eq_None_iff)
  then have "(cat_track_id t, st0) \<in> set (stats StreamProcessor_init)"
    by (rule map_of_SomeD)
  then have "\<exists>t'::track. st0 = TrackStats_init (cat_track_id t) (cat_title t')"
    by (auto simp: stats_init)
  with process_batch_aggregate [OF assms(1) m] show ?thesis
    by blast
qed

end
